theory Spec2Isabelle
  imports Complex_Main
begin

section \<open>The notebook cell: Hough transform and drawing\<close>

text \<open>
  The code cell of \<^verbatim>\<open>2_16_Hough_Transform.ipynb\<close> ends with the stage
  \<^verbatim>\<open>
  line_image = np.copy(image)*0
  lines = cv2.HoughLinesP(masked_edges, rho, theta, threshold, np.array([]),
                              min_line_length, max_line_gap)
  for line in lines:
      for x1,y1,x2,y2 in line:
          cv2.line(line_image,(x1,y1),(x2,y2),(255,0,0),10)
  color_edges = np.dstack((edges, edges, edges))
  lines_edges = cv2.addWeighted(color_edges, 0.8, line_image, 1, 0)
  \<close>
  Arrays are objects that variables refer to, so the stage runs on an explicit store:
  a list of arrays, an address being an index into it. Creating an array appends to the
  store; only \<^verbatim>\<open>cv2.line\<close> writes into an existing array, and the Hough call reads
  the array it is given. The placeholder \<^verbatim>\<open>np.array([])\<close> is an empty array that no
  variable refers to; the model leaves it out. The library calls are taken to return.
\<close>

datatype py_error = TypeError | ValueError

record ndarray =
  shape :: "nat list"
  data :: "nat list"

type_synonym addr = nat
type_synonym store = "ndarray list"

text \<open>
  What \<^verbatim>\<open>cv2.HoughLinesP\<close> hands back to Python: \<^verbatim>\<open>None\<close> when it found no
  segment, otherwise an array of shape (N, 1, 4), one row \<^verbatim>\<open>[x1, y1, x2, y2]\<close> per line.
\<close>

datatype py_lines = PyNone | NdLines "int list list list"

text \<open>
  The pixel arithmetic of the library calls is not part of the notebook. It is taken as
  a parameter: each field gives the contents a call computes from the contents it reads.
\<close>

record library =
  cv2_HoughLinesP :: "ndarray \<Rightarrow> real \<Rightarrow> real \<Rightarrow> int \<Rightarrow> int \<Rightarrow> int \<Rightarrow> py_lines"
  cv2_line :: "ndarray \<Rightarrow> int \<times> int \<Rightarrow> int \<times> int \<Rightarrow> nat \<times> nat \<times> nat \<Rightarrow> nat \<Rightarrow> ndarray"
  np_dstack :: "ndarray \<Rightarrow> ndarray \<Rightarrow> ndarray \<Rightarrow> ndarray"
  cv2_addWeighted :: "ndarray \<Rightarrow> real \<Rightarrow> ndarray \<Rightarrow> real \<Rightarrow> real \<Rightarrow> ndarray"

definition alloc :: "store \<Rightarrow> ndarray \<Rightarrow> addr \<times> store" where
  "alloc h a = (length h, h @ [a])"

text \<open>\<^verbatim>\<open>np.copy(a)\<close>: a new array with the contents of \<open>a\<close>.\<close>

definition np_copy :: "store \<Rightarrow> addr \<Rightarrow> addr \<times> store" where
  "np_copy h a = alloc h (h ! a)"

text \<open>\<^verbatim>\<open>a * 0\<close>: a new array, every element multiplied by the scalar.\<close>

definition np_mul :: "store \<Rightarrow> addr \<Rightarrow> nat \<Rightarrow> addr \<times> store" where
  "np_mul h a k = alloc h ((h ! a)\<lparr>data := map (\<lambda>v. v * k) (data (h ! a))\<rparr>)"

text \<open>\<^verbatim>\<open>for x1,y1,x2,y2 in line\<close> unpacks each row into four names.\<close>

fun unpack4 :: "int list \<Rightarrow> py_error + (int \<times> int \<times> int \<times> int)" where
  "unpack4 [x1, y1, x2, y2] = Inr (x1, y1, x2, y2)"
| "unpack4 _ = Inl ValueError"

text \<open>
  The inner loop: \<^verbatim>\<open>cv2.line\<close> draws into the array at \<open>line_image\<close>, in place.
  The result is the exception raised, if any, and the store reached.
\<close>

fun draw_line :: "library \<Rightarrow> addr \<Rightarrow> int list list \<Rightarrow> store \<Rightarrow> py_error option \<times> store" where
  "draw_line lib line_image [] h = (None, h)"
| "draw_line lib line_image (row # rows) h =
     (case unpack4 row of
        Inl e \<Rightarrow> (Some e, h)
      | Inr (x1, y1, x2, y2) \<Rightarrow>
          draw_line lib line_image rows
            (h[line_image := cv2_line lib (h ! line_image) (x1, y1) (x2, y2) (255, 0, 0) 10]))"

text \<open>The outer loop \<^verbatim>\<open>for line in lines\<close>, over the rows of an array.\<close>

fun draw_lines :: "library \<Rightarrow> addr \<Rightarrow> int list list list \<Rightarrow> store \<Rightarrow> py_error option \<times> store" where
  "draw_lines lib line_image [] h = (None, h)"
| "draw_lines lib line_image (line # lines) h =
     (case draw_line lib line_image line h of
        (Some e, h') \<Rightarrow> (Some e, h')
      | (None, h') \<Rightarrow> draw_lines lib line_image lines h')"

text \<open>
  The stage itself. \<open>img\<close> (the variable \<^verbatim>\<open>image\<close>), \<open>edges\<close> and \<open>masked_edges\<close> are
  the addresses the variables of the cell hold when the stage starts. Iterating over \<^verbatim>\<open>None\<close> raises
  \<^verbatim>\<open>TypeError\<close>. The result is either the exception or the address of \<open>lines_edges\<close>,
  with the store reached.
\<close>

definition hough_and_draw ::
  "library \<Rightarrow> addr \<Rightarrow> addr \<Rightarrow> addr \<Rightarrow> store \<Rightarrow> (py_error + addr) \<times> store" where
  "hough_and_draw lib img edges masked_edges h =
     (let rho = 1;
          theta = pi / 180;
          threshold = 10;
          min_line_length = 10;
          max_line_gap = 5;
          (copied, h1) = np_copy h img;
          (line_image, h2) = np_mul h1 copied 0;
          lines = cv2_HoughLinesP lib (h2 ! masked_edges) rho theta threshold
                    min_line_length max_line_gap
      in case lines of
           PyNone \<Rightarrow> (Inl TypeError, h2)
         | NdLines ls \<Rightarrow>
             (case draw_lines lib line_image ls h2 of
                (Some e, h3) \<Rightarrow> (Inl e, h3)
              | (None, h3) \<Rightarrow>
                  let (color_edges, h4) =
                        alloc h3 (np_dstack lib (h3 ! edges) (h3 ! edges) (h3 ! edges));
                      (lines_edges, h5) =
                        alloc h4 (cv2_addWeighted lib (h4 ! color_edges) 0.8 (h4 ! line_image) 1 0)
                  in (Inr lines_edges, h5)))"

section \<open>The line detector of the specification\<close>

text \<open>
  Modelled from the spec: the notebook only calls \<^verbatim>\<open>cv2.HoughLinesP\<close>, whose code is
  not in the repository. The detector \<open>detect\<close> below follows section 4.1 of the
  specification: the parameter check, the accumulator of step 2, the segment extraction of
  step 3 and the incremental sampling of step 4. The random source is the injected
  sequence \<open>rnd\<close>, whose \<open>i\<close>-th draw picks the next pixel among those still pending.
  Where the specification is silent, the model takes the distance bucket of \<open>v\<close> to be
  \<open>\<lfloor>v / rho\<rfloor>\<close>, and among cells with equal votes it takes first the one that holds
  more edge pixels of the mask, then the one enumerated first.
\<close>

type_synonym pixel = "nat \<times> nat"

record edge_mask =
  mask_width :: nat
  mask_height :: nat
  mask_pixel :: "nat \<Rightarrow> nat \<Rightarrow> bool"

record line_segment =
  seg_x1 :: int
  seg_y1 :: int
  seg_x2 :: int
  seg_y2 :: int

datatype detect_error = InvalidParameter

type_synonym cell = "nat \<times> int"

text \<open>
  Modelled from the spec: the EdgeMask of section 3, a grid of booleans of fixed width and
  height. Its edge pixels \<open>(x, y)\<close>, row by row.
\<close>

definition edge_pixels :: "edge_mask \<Rightarrow> pixel list" where
  "edge_pixels m =
     concat (map (\<lambda>y. map (\<lambda>x. (x, y)) (filter (\<lambda>x. mask_pixel m x y) [0..<mask_width m]))
                 [0..<mask_height m])"

text \<open>Modelled from the spec: step 1, the angle buckets \<open>k\<close> with \<open>k * thetaStep < pi\<close>, and their angles.\<close>

definition num_angles :: "real \<Rightarrow> nat" where
  "num_angles thetaStep = nat \<lceil>pi / thetaStep\<rceil>"

definition theta_k :: "real \<Rightarrow> nat \<Rightarrow> real" where
  "theta_k thetaStep k = real k * thetaStep"

text \<open>
  Modelled from the spec: step 2, the distance of a pixel's line at an angle, its bucket
  and its cell.
\<close>

definition rho_of :: "real \<Rightarrow> pixel \<Rightarrow> real" where
  "rho_of th p = real (fst p) * cos th + real (snd p) * sin th"

definition bucket :: "real \<Rightarrow> real \<Rightarrow> int" where
  "bucket rho v = \<lfloor>v / rho\<rfloor>"

definition cell_of :: "real \<Rightarrow> real \<Rightarrow> nat \<Rightarrow> pixel \<Rightarrow> cell" where
  "cell_of rho thetaStep k p = (k, bucket rho (rho_of (theta_k thetaStep k) p))"

text \<open>
  Modelled from the spec: the membership set of a cell among the pixels \<open>ps\<close>; its length
  is the vote count.
\<close>

definition members :: "real \<Rightarrow> real \<Rightarrow> cell \<Rightarrow> pixel list \<Rightarrow> pixel list" where
  "members rho thetaStep c ps = filter (\<lambda>p. cell_of rho thetaStep (fst c) p = c) ps"

text \<open>
  Modelled from the spec: the accumulator after the pixels \<open>ps\<close> have voted: every cell that received a vote,
  with its members.
\<close>

definition accumulate :: "real \<Rightarrow> real \<Rightarrow> pixel list \<Rightarrow> (cell \<times> pixel list) list" where
  "accumulate rho thetaStep ps =
     map (\<lambda>c. (c, members rho thetaStep c ps))
         (remdups (concat (map (\<lambda>p. map (\<lambda>k. cell_of rho thetaStep k p)
                                          [0..<num_angles thetaStep]) ps)))"

text \<open>
  Modelled from the spec: the votes of a cell once every edge pixel of the mask has voted.
\<close>

definition votes :: "edge_mask \<Rightarrow> real \<Rightarrow> real \<Rightarrow> cell \<Rightarrow> nat" where
  "votes m rho thetaStep c = length (members rho thetaStep c (edge_pixels m))"

text \<open>
  Modelled from the spec: step 3, the cells at or above the threshold, in descending vote
  order. A cell is given with its members among the pixels that have voted. Cells with
  equal votes are ordered by the number of pixels among \<open>ps\<close> that fall into them.
\<close>

definition candidates ::
  "int \<Rightarrow> real \<Rightarrow> real \<Rightarrow> pixel list \<Rightarrow> (cell \<times> pixel list) list \<Rightarrow> (cell \<times> pixel list) list" where
  "candidates voteThreshold rho thetaStep ps acc =
     sort_key (\<lambda>(c, ms). - int (length ms))
       (sort_key (\<lambda>(c, ms). - int (length (members rho thetaStep c ps)))
          (filter (\<lambda>(c, ms). voteThreshold \<le> int (length ms)) acc))"

text \<open>
  Modelled from the spec: step 3a, the position of a pixel along the direction of the line
  at angle \<open>th\<close>.
\<close>

definition proj :: "real \<Rightarrow> pixel \<Rightarrow> real" where
  "proj th p = real (snd p) * cos th - real (fst p) * sin th"

text \<open>
  Modelled from the spec: the gap between two pixels, in pixels, as \<open>maxLineGap\<close> counts
  it: the number of pixels that fit between them on a line. Neighbouring pixels, also
  diagonal ones, are at gap 0.
\<close>

definition pixel_gap :: "pixel \<Rightarrow> pixel \<Rightarrow> nat" where
  "pixel_gap p q =
     max (nat \<bar>int (fst q) - int (fst p)\<bar>) (nat \<bar>int (snd q) - int (snd p)\<bar>) - 1"

text \<open>
  Modelled from the spec: step 3b, the pixels sorted by position are split into runs
  wherever two consecutive ones are separated by a gap larger than \<open>maxLineGap\<close>.
\<close>

fun split_runs :: "nat \<Rightarrow> pixel list \<Rightarrow> pixel list list" where
  "split_runs g [] = []"
| "split_runs g [p] = [[p]]"
| "split_runs g (p # q # ps) =
     (if pixel_gap p q > g then [p] # split_runs g (q # ps)
      else (case split_runs g (q # ps) of
              [] \<Rightarrow> [[p]]
            | r # rs \<Rightarrow> (p # r) # rs))"

definition run_span :: "(pixel \<Rightarrow> real) \<Rightarrow> pixel list \<Rightarrow> real" where
  "run_span f r = f (last r) - f (hd r)"

definition segment_of :: "pixel list \<Rightarrow> line_segment" where
  "segment_of r =
     \<lparr>seg_x1 = int (fst (hd r)), seg_y1 = int (snd (hd r)),
      seg_x2 = int (fst (last r)), seg_y2 = int (snd (last r))\<rparr>"

text \<open>
  Modelled from the spec: step 3c, one segment per run whose span reaches the minimum
  length, from the first pixel of the run to its last.
\<close>

definition cell_segments :: "real \<Rightarrow> nat \<Rightarrow> nat \<Rightarrow> cell \<Rightarrow> pixel list \<Rightarrow> line_segment list" where
  "cell_segments thetaStep minLineLength maxLineGap c ms =
     (let th = theta_k thetaStep (fst c);
          runs = split_runs maxLineGap (sort_key (proj th) ms)
      in map segment_of (filter (\<lambda>r. real minLineLength \<le> run_span (proj th) r) runs))"

text \<open>
  Modelled from the spec: step 4, pixels are sampled one at a time. \<open>pending\<close> are the
  edge pixels not yet sampled, \<open>voted\<close> those that have voted; neither holds a removed
  pixel. After each sample the accumulator of the votes is checked. When a cell is at or
  above the threshold, its contributing pixels are all the remaining edge pixels that fall
  into it, sampled or not: the segments are extracted from them, and they are removed from
  further voting, so that the same line is not detected again.
\<close>

function sample_loop ::
  "(nat \<Rightarrow> nat) \<Rightarrow> real \<Rightarrow> real \<Rightarrow> int \<Rightarrow> nat \<Rightarrow> nat \<Rightarrow> nat \<Rightarrow> pixel list \<Rightarrow> pixel list
     \<Rightarrow> line_segment list" where
  "sample_loop rnd rho thetaStep voteThreshold minLineLength maxLineGap i pending voted =
     (case candidates voteThreshold rho thetaStep (pending @ voted)
             (accumulate rho thetaStep voted) of
        (c, ms) # _ \<Rightarrow>
          (let contributing = members rho thetaStep c (pending @ voted)
           in cell_segments thetaStep minLineLength maxLineGap c contributing @
              sample_loop rnd rho thetaStep voteThreshold minLineLength maxLineGap i
                (filter (\<lambda>p. p \<notin> set contributing) pending)
                (filter (\<lambda>p. p \<notin> set contributing) voted))
      | [] \<Rightarrow>
          (if pending = [] then []
           else let j = rnd i mod length pending
                in sample_loop rnd rho thetaStep voteThreshold minLineLength maxLineGap (Suc i)
                     (take j pending @ drop (Suc j) pending) (pending ! j # voted)))"
  by pat_completeness auto
termination
proof (relation "measure (\<lambda>(rnd, rho, thetaStep, voteThreshold, minLineLength, maxLineGap,
                            i, pending, voted). 2 * length pending + length voted)", goal_cases)
  case 1
  show ?case by simp
next
  case (2 rnd rho thetaStep voteThreshold minLineLength maxLineGap i pending voted j)
  then have "j < length pending" by simp
  then show ?case by simp
next
  case (3 rnd rho thetaStep voteThreshold minLineLength maxLineGap i pending voted x21 x22 c ms
          contributing)
  then have "(c, ms) \<in> set (candidates voteThreshold rho thetaStep (pending @ voted)
                             (accumulate rho thetaStep voted))"
    by simp
  then have "(c, ms) \<in> set (accumulate rho thetaStep voted)"
    by (auto simp: candidates_def)
  then obtain p k where p: "p \<in> set voted" and c: "c = cell_of rho thetaStep k p"
    by (auto simp: accumulate_def)
  from c have "fst c = k" by (simp add: cell_of_def)
  with p c 3 have "p \<in> set contributing" by (simp add: members_def)
  with p have "length (filter (\<lambda>p. p \<notin> set contributing) voted) < length voted"
    by (auto intro: length_filter_less)
  moreover have "length (filter (\<lambda>p. p \<notin> set contributing) pending) \<le> length pending"
    by (rule length_filter_le)
  ultimately have "2 * length (filter (\<lambda>p. p \<notin> set contributing) pending)
        + length (filter (\<lambda>p. p \<notin> set contributing) voted)
          < 2 * length pending + length voted"
    by linarith
  then show ?case by simp
qed

declare sample_loop.simps [simp del]

text \<open>
  Modelled from the spec: the detector \<open>detect\<close> of section 4.1, absent from the
  repository. Parameters are checked before anything else; \<open>Inl InvalidParameter\<close> is
  the error, \<open>Inr\<close> carries the segments.
\<close>

definition detect ::
  "(nat \<Rightarrow> nat) \<Rightarrow> edge_mask \<Rightarrow> real \<Rightarrow> real \<Rightarrow> int \<Rightarrow> nat \<Rightarrow> nat
     \<Rightarrow> detect_error + line_segment list" where
  "detect rnd edgeMask rho thetaStep voteThreshold minLineLength maxLineGap =
     (if rho \<le> 0 \<or> thetaStep \<le> 0 \<or> voteThreshold < 1
         \<or> mask_width edgeMask * mask_height edgeMask = 0
      then Inl InvalidParameter
      else Inr (sample_loop rnd rho thetaStep voteThreshold minLineLength maxLineGap 0
                  (edge_pixels edgeMask) []))"

section \<open>Concrete inputs\<close>

text \<open>A store holding \<^verbatim>\<open>image\<close>, \<^verbatim>\<open>edges\<close> and \<^verbatim>\<open>masked_edges\<close> at addresses 0, 1, 2.\<close>

definition example_store :: store where
  "example_store =
     [\<lparr>shape = [1, 2, 3], data = [10, 20, 30, 40, 50, 60]\<rparr>,
      \<lparr>shape = [1, 2], data = [255, 0]\<rparr>,
      \<lparr>shape = [1, 2], data = [255, 0]\<rparr>]"

text \<open>A library whose Hough call finds nothing.\<close>

definition library_no_lines :: library where
  "library_no_lines =
     \<lparr>cv2_HoughLinesP = (\<lambda>a rho theta threshold min_line_length max_line_gap. PyNone),
      cv2_line = (\<lambda>a p q colour thickness. a),
      np_dstack = (\<lambda>a b c. a),
      cv2_addWeighted = (\<lambda>a alpha b beta gamma. a)\<rparr>"

text \<open>
  A library whose Hough call finds one segment, whose \<^verbatim>\<open>cv2.line\<close> paints every
  element, and whose blend adds the two arrays and saturates at 255.
\<close>

definition library_one_line :: library where
  "library_one_line =
     \<lparr>cv2_HoughLinesP = (\<lambda>a rho theta threshold min_line_length max_line_gap.
                           NdLines [[[0, 0, 1, 0]]]),
      cv2_line = (\<lambda>a p q colour thickness. a\<lparr>data := map (\<lambda>v. 255) (data a)\<rparr>),
      np_dstack = (\<lambda>a b c. a\<lparr>shape := shape a @ [3],
                               data := concat (map (\<lambda>v. [v, v, v]) (data a))\<rparr>),
      cv2_addWeighted = (\<lambda>a alpha b beta gamma.
                           a\<lparr>data := map (\<lambda>(u, v). min 255 (u + v)) (zip (data a) (data b))\<rparr>)\<rparr>"

text \<open>
  Masks for the detector: a column of three edge pixels, the 20 by 20 mask with edge
  pixels on the diagonal from (0, 0) to (19, 19), and a 20 by 20 mask without edge pixels.
\<close>

definition column_mask :: edge_mask where
  "column_mask = \<lparr>mask_width = 1, mask_height = 3, mask_pixel = (\<lambda>x y. True)\<rparr>"

definition diagonal_mask :: edge_mask where
  "diagonal_mask = \<lparr>mask_width = 20, mask_height = 20, mask_pixel = (\<lambda>x y. x = y)\<rparr>"

definition blank_mask :: edge_mask where
  "blank_mask = \<lparr>mask_width = 20, mask_height = 20, mask_pixel = (\<lambda>x y. False)\<rparr>"

text \<open>The edge pixels of the diagonal mask, in the order of \<open>edge_pixels\<close>.\<close>

definition diagonal_pixels :: "pixel list" where
  "diagonal_pixels = map (\<lambda>i. (i, i)) [0..<20]"

text \<open>
  A column of eight pixels whose edge pixels are two runs of three, with two pixels missing
  between them.
\<close>

definition two_runs_mask :: edge_mask where
  "two_runs_mask = \<lparr>mask_width = 1, mask_height = 8, mask_pixel = (\<lambda>x y. y < 3 \<or> 5 \<le> y)\<rparr>"

section \<open>Properties of the notebook stage\<close>

lemma draw_line_frame:
  "draw_line lib li rows h = (r, h') \<Longrightarrow>
     length h' = length h \<and> (\<forall>a. a \<noteq> li \<longrightarrow> h' ! a = h ! a)"
proof (induction rows arbitrary: h)
  case Nil
  then show ?case by simp
next
  case (Cons row rows)
  show ?case
  proof (cases "unpack4 row")
    case (Inl e)
    with Cons.prems show ?thesis by simp
  next
    case (Inr q)
    obtain x1 y1 x2 y2 where q: "q = (x1, y1, x2, y2)" by (cases q) auto
    let ?h = "h[li := cv2_line lib (h ! li) (x1, y1) (x2, y2) (255, 0, 0) 10]"
    from Cons.prems Inr q have "draw_line lib li rows ?h = (r, h')" by simp
    from Cons.IH [OF this] show ?thesis by simp
  qed
qed

lemma draw_lines_frame:
  "draw_lines lib li ls h = (r, h') \<Longrightarrow>
     length h' = length h \<and> (\<forall>a. a \<noteq> li \<longrightarrow> h' ! a = h ! a)"
proof (induction ls arbitrary: h)
  case Nil
  then show ?case by simp
next
  case (Cons l ls)
  obtain r1 h1 where step: "draw_line lib li l h = (r1, h1)" by (cases "draw_line lib li l h")
  note f1 = draw_line_frame [OF step]
  show ?case
  proof (cases r1)
    case None
    with Cons.prems step have "draw_lines lib li ls h1 = (r, h')" by simp
    from Cons.IH [OF this] f1 show ?thesis by simp
  next
    case (Some e)
    with Cons.prems step have "h' = h1" by simp
    with f1 show ?thesis by simp
  qed
qed

text \<open>
  C9: when the Hough call finds no segment, \<^verbatim>\<open>cv2.HoughLinesP\<close> returns \<^verbatim>\<open>None\<close>, and
  the unconditional \<^verbatim>\<open>for line in lines\<close> raises \<^verbatim>\<open>TypeError\<close>: the stage ends with
  the exception, no \<open>lines_edges\<close> is produced, and the store holds nothing new but the
  copy of the image and the blank \<open>line_image\<close>.
\<close>

theorem hough_none_raises:
  assumes "masked_edges < length h"
    and "cv2_HoughLinesP lib (h ! masked_edges) 1 (pi / 180) 10 10 5 = PyNone"
  shows "hough_and_draw lib img edges masked_edges h =
           (Inl TypeError,
            h @ [h ! img, (h ! img)\<lparr>data := map (\<lambda>v. v * 0) (data (h ! img))\<rparr>])"
  using assms
  by (simp add: hough_and_draw_def np_copy_def np_mul_def alloc_def nth_append)

theorem hough_none_raises_witness:
  "2 < length example_store
   \<and> cv2_HoughLinesP library_no_lines (example_store ! 2) 1 (pi / 180) 10 10 5 = PyNone
   \<and> hough_and_draw library_no_lines 0 1 2 example_store =
       (Inl TypeError,
        example_store @ [\<lparr>shape = [1, 2, 3], data = [10, 20, 30, 40, 50, 60]\<rparr>,
                         \<lparr>shape = [1, 2, 3], data = [0, 0, 0, 0, 0, 0]\<rparr>])"
proof -
  have len: "2 < length example_store" by (simp add: example_store_def)
  have none: "cv2_HoughLinesP library_no_lines (example_store ! 2) 1 (pi / 180) 10 10 5 = PyNone"
    by (simp add: library_no_lines_def)
  from hough_none_raises [OF len none, of 0 1] len none show ?thesis
    by (simp add: example_store_def)
qed

text \<open>
  C10: the stage leaves every array that existed before it unchanged, in particular the
  ones \<open>image\<close>, \<open>edges\<close> and \<open>masked_edges\<close> refer to: \<^verbatim>\<open>cv2.line\<close> writes only into
  the \<open>line_image\<close> created by the stage, and \<open>lines_edges\<close>, when the stage produces it,
  is a new array.
\<close>

theorem hough_and_draw_frame:
  assumes "img < length h" "edges < length h" "masked_edges < length h"
    and run: "hough_and_draw lib img edges masked_edges h = (res, h')"
  shows "take (length h) h' = h
       \<and> h' ! img = h ! img \<and> h' ! edges = h ! edges \<and> h' ! masked_edges = h ! masked_edges
       \<and> (\<forall>a. res = Inr a \<longrightarrow> length h < a \<and> a < length h')"
proof -
  define c where "c = h ! img"
  define z where "z = c\<lparr>data := map (\<lambda>v. v * 0) (data c)\<rparr>"
  define h2 where "h2 = h @ [c, z]"
  define li where "li = Suc (length h)"
  define lines where "lines = cv2_HoughLinesP lib (h2 ! masked_edges) 1 (pi / 180) 10 10 5"
  have pre: "take (length h) h2 = h" by (simp add: h2_def)
  have unfold: "hough_and_draw lib img edges masked_edges h =
     (case lines of
        PyNone \<Rightarrow> (Inl TypeError, h2)
      | NdLines ls \<Rightarrow>
          (case draw_lines lib li ls h2 of
             (Some e, h3) \<Rightarrow> (Inl e, h3)
           | (None, h3) \<Rightarrow>
               (Inr (Suc (length h3)),
                (h3 @ [np_dstack lib (h3 ! edges) (h3 ! edges) (h3 ! edges)]) @
                [cv2_addWeighted lib
                   ((h3 @ [np_dstack lib (h3 ! edges) (h3 ! edges) (h3 ! edges)]) ! length h3)
                   0.8
                   ((h3 @ [np_dstack lib (h3 ! edges) (h3 ! edges) (h3 ! edges)]) ! li) 1 0])))"
    by (simp add: hough_and_draw_def np_copy_def np_mul_def alloc_def Let_def
        c_def z_def h2_def li_def lines_def nth_append
        split: py_lines.splits prod.splits option.splits)
  have keep: "take (length h) h3 = h"
    if "length h3 = length h2" and "\<forall>a. a \<noteq> li \<longrightarrow> h3 ! a = h2 ! a" for h3
  proof (rule nth_equalityI)
    show "length (take (length h) h3) = length h" using that by (simp add: h2_def)
  next
    fix i assume "i < length (take (length h) h3)"
    then have i: "i < length h" by simp
    then have "i \<noteq> li" by (simp add: li_def)
    with that i show "take (length h) h3 ! i = h ! i" by (simp add: h2_def nth_append)
  qed
  have main: "take (length h) h' = h \<and> (\<forall>a. res = Inr a \<longrightarrow> length h < a \<and> a < length h')"
  proof (cases lines)
    case PyNone
    with run unfold pre show ?thesis by auto
  next
    case (NdLines ls)
    obtain r h3 where d: "draw_lines lib li ls h2 = (r, h3)"
      by (cases "draw_lines lib li ls h2")
    from draw_lines_frame [OF d] have len: "length h3 = length h2"
      and same: "\<forall>a. a \<noteq> li \<longrightarrow> h3 ! a = h2 ! a" by simp_all
    have k: "take (length h) h3 = h" by (rule keep [OF len same])
    have l2: "length h2 = length h + 2" by (simp add: h2_def)
    show ?thesis
    proof (cases r)
      case None
      with run unfold NdLines d have "res = Inr (Suc (length h3))" and
        "take (length h) h' = take (length h) h3" and "length h' = length h3 + 2"
        using len l2 by auto
      with k len l2 show ?thesis by auto
    next
      case (Some e)
      with run unfold NdLines d have "res = Inl e" "h' = h3" by auto
      with k show ?thesis by auto
    qed
  qed
  then have t: "take (length h) h' = h" by simp
  have "h' ! a = h ! a" if "a < length h" for a
  proof -
    have "take (length h) h' ! a = h' ! a" using that by simp
    with t show ?thesis by simp
  qed
  with assms(1-3) main show ?thesis by simp
qed

theorem hough_and_draw_frame_witness:
  "hough_and_draw library_one_line 0 1 2 example_store =
     (Inr 6,
      example_store @
        [\<lparr>shape = [1, 2, 3], data = [10, 20, 30, 40, 50, 60]\<rparr>,
         \<lparr>shape = [1, 2, 3], data = [255, 255, 255, 255, 255, 255]\<rparr>,
         \<lparr>shape = [1, 2, 3], data = [255, 255, 255, 0, 0, 0]\<rparr>,
         \<lparr>shape = [1, 2, 3], data = [255, 255, 255, 255, 255, 255]\<rparr>])
   \<and> take 3 (snd (hough_and_draw library_one_line 0 1 2 example_store)) = example_store"
proof -
  have run: "hough_and_draw library_one_line 0 1 2 example_store =
     (Inr 6,
      example_store @
        [\<lparr>shape = [1, 2, 3], data = [10, 20, 30, 40, 50, 60]\<rparr>,
         \<lparr>shape = [1, 2, 3], data = [255, 255, 255, 255, 255, 255]\<rparr>,
         \<lparr>shape = [1, 2, 3], data = [255, 255, 255, 0, 0, 0]\<rparr>,
         \<lparr>shape = [1, 2, 3], data = [255, 255, 255, 255, 255, 255]\<rparr>])"
    by (simp add: hough_and_draw_def np_copy_def np_mul_def alloc_def Let_def
        library_one_line_def example_store_def)
  have len: "0 < length example_store" "1 < length example_store" "2 < length example_store"
    by (simp_all add: example_store_def)
  have "length example_store = 3" by (simp add: example_store_def)
  with hough_and_draw_frame [OF len run] run show ?thesis by simp
qed

section \<open>Properties of the detector\<close>

subsection \<open>Edge pixels, runs and segments\<close>

lemma edge_pixels_iff:
  "p \<in> set (edge_pixels m) \<longleftrightarrow>
     fst p < mask_width m \<and> snd p < mask_height m \<and> mask_pixel m (fst p) (snd p)"
  by (cases p) (auto simp: edge_pixels_def)

lemma distinct_rows:
  "distinct ys \<Longrightarrow> (\<And>y. distinct (g y)) \<Longrightarrow>
     distinct (concat (map (\<lambda>y. map (\<lambda>x. (x, y)) (g y)) ys))"
  by (induction ys) (auto simp: distinct_map inj_on_def)

lemma distinct_edge_pixels: "distinct (edge_pixels m)"
  unfolding edge_pixels_def by (rule distinct_rows) simp_all

lemma split_runs_sound:
  "r \<in> set (split_runs g xs) \<Longrightarrow> r \<noteq> [] \<and> set r \<subseteq> set xs"
proof (induction g xs arbitrary: r rule: split_runs.induct)
  case (1 g)
  then show ?case by simp
next
  case (2 g p)
  then show ?case by simp
next
  case (3 g p q ps)
  show ?case
  proof (cases "pixel_gap p q > g")
    case True
    with 3 show ?thesis by auto
  next
    case False
    show ?thesis
    proof (cases "split_runs g (q # ps)")
      case Nil
      with False "3.prems" show ?thesis by simp
    next
      case (Cons r0 rs)
      with False "3.prems" have "r = p # r0 \<or> r \<in> set rs" by simp
      moreover have "r0 \<noteq> [] \<and> set r0 \<subseteq> set (q # ps)"
        using "3.IH"(2) [OF False, of r0] Cons by simp
      moreover have "r \<in> set rs \<Longrightarrow> r \<noteq> [] \<and> set r \<subseteq> set (q # ps)"
        using "3.IH"(2) [OF False, of r] Cons by simp
      ultimately show ?thesis by auto
    qed
  qed
qed

lemma cell_segments_sound:
  assumes "s \<in> set (cell_segments thetaStep minLineLength maxLineGap c ms)"
  shows "\<exists>p q. p \<in> set ms \<and> q \<in> set ms
           \<and> s = \<lparr>seg_x1 = int (fst p), seg_y1 = int (snd p),
                  seg_x2 = int (fst q), seg_y2 = int (snd q)\<rparr>
           \<and> real minLineLength
               \<le> proj (theta_k thetaStep (fst c)) q - proj (theta_k thetaStep (fst c)) p"
proof -
  let ?th = "theta_k thetaStep (fst c)"
  from assms obtain r where
    r: "r \<in> set (split_runs maxLineGap (sort_key (proj ?th) ms))"
    and span: "real minLineLength \<le> run_span (proj ?th) r" and s: "s = segment_of r"
    by (auto simp: cell_segments_def Let_def)
  from split_runs_sound [OF r] have ne: "r \<noteq> []" and sub: "set r \<subseteq> set ms" by simp_all
  from ne sub have "hd r \<in> set ms" "last r \<in> set ms" by auto
  with span s show ?thesis
    by (intro exI [of _ "hd r"] exI [of _ "last r"]) (simp add: segment_of_def run_span_def)
qed

lemma candidates_head:
  assumes "candidates voteThreshold rho thetaStep ps (accumulate rho thetaStep voted)
             = (c, ms) # rest"
  shows "ms = members rho thetaStep c voted \<and> voteThreshold \<le> int (length ms)
       \<and> fst c < num_angles thetaStep"
proof -
  from assms have "(c, ms) \<in> set (candidates voteThreshold rho thetaStep ps
                                     (accumulate rho thetaStep voted))"
    by simp
  then show ?thesis by (auto simp: candidates_def accumulate_def cell_of_def)
qed

lemma sample_step_distinct:
  assumes "distinct (pending @ voted)" and "j < length pending"
  shows "distinct ((take j pending @ drop (Suc j) pending) @ (pending ! j # voted))"
    and "set ((take j pending @ drop (Suc j) pending) @ (pending ! j # voted))
           = set (pending @ voted)"
proof -
  from assms(2) have split: "pending = take j pending @ pending ! j # drop (Suc j) pending"
    by (rule id_take_nth_drop)
  from assms(1) have "distinct ((take j pending @ pending ! j # drop (Suc j) pending) @ voted)"
    using split by simp
  then show "distinct ((take j pending @ drop (Suc j) pending) @ (pending ! j # voted))"
    by auto
  have "set pending = set (take j pending @ pending ! j # drop (Suc j) pending)"
    using split by simp
  then show "set ((take j pending @ drop (Suc j) pending) @ (pending ! j # voted))
           = set (pending @ voted)"
    by auto
qed

lemma sample_loop_emitted:
  assumes "distinct (pending @ voted)"
    and "s \<in> set (sample_loop rnd rho thetaStep voteThreshold minLineLength maxLineGap
                     i pending voted)"
  shows "\<exists>c ms. distinct ms \<and> set ms \<subseteq> set (pending @ voted)
           \<and> fst c < num_angles thetaStep
           \<and> (\<forall>p\<in>set ms. cell_of rho thetaStep (fst c) p = c)
           \<and> voteThreshold \<le> int (length ms)
           \<and> s \<in> set (cell_segments thetaStep minLineLength maxLineGap c ms)"
  using assms
proof (induction rnd rho thetaStep voteThreshold minLineLength maxLineGap i pending voted
       rule: sample_loop.induct)
  case (1 rnd rho thetaStep voteThreshold minLineLength maxLineGap i pending voted)
  note unf = sample_loop.simps [of rnd rho thetaStep voteThreshold minLineLength maxLineGap
                                   i pending voted]
  show ?case
  proof (cases "candidates voteThreshold rho thetaStep (pending @ voted)
                  (accumulate rho thetaStep voted)")
    case Nil
    show ?thesis
    proof (cases "pending = []")
      case True
      with Nil "1.prems"(2) show ?thesis unfolding unf by simp
    next
      case False
      define j where "j = rnd i mod length pending"
      from False have j: "j < length pending" by (simp add: j_def)
      let ?pending = "take j pending @ drop (Suc j) pending"
      let ?voted = "pending ! j # voted"
      from Nil False "1.prems"(2) have
        "s \<in> set (sample_loop rnd rho thetaStep voteThreshold minLineLength maxLineGap
                     (Suc i) ?pending ?voted)"
        unfolding unf by (simp add: j_def Let_def)
      moreover note d = sample_step_distinct [OF "1.prems"(1) j]
      ultimately obtain c ms where "distinct ms" "set ms \<subseteq> set (?pending @ ?voted)"
        "fst c < num_angles thetaStep"
        "\<forall>p\<in>set ms. cell_of rho thetaStep (fst c) p = c" "voteThreshold \<le> int (length ms)"
        "s \<in> set (cell_segments thetaStep minLineLength maxLineGap c ms)"
        using "1.IH"(1) [OF Nil False j_def d(1)] by blast
      with d(2) show ?thesis by blast
    qed
  next
    case (Cons top rest)
    obtain c ms0 where top: "top = (c, ms0)" by (cases top)
    note hd = candidates_head [OF Cons [unfolded top]]
    from hd have ms0: "ms0 = members rho thetaStep c voted" by (rule conjunct1)
    from hd have thr0: "voteThreshold \<le> int (length ms0)" by blast
    from hd have k: "fst c < num_angles thetaStep" by blast
    define ms where "ms = members rho thetaStep c (pending @ voted)"
    have "length ms0 \<le> length ms" by (simp add: ms0 ms_def members_def)
    with thr0 have thr: "voteThreshold \<le> int (length ms)" by linarith
    let ?pending = "filter (\<lambda>p. p \<notin> set ms) pending"
    let ?voted = "filter (\<lambda>p. p \<notin> set ms) voted"
    from Cons top "1.prems"(2) have
      "s \<in> set (cell_segments thetaStep minLineLength maxLineGap c ms)
       \<or> s \<in> set (sample_loop rnd rho thetaStep voteThreshold minLineLength maxLineGap
                     i ?pending ?voted)"
      unfolding unf by (simp add: ms_def Let_def)
    then show ?thesis
    proof
      assume "s \<in> set (cell_segments thetaStep minLineLength maxLineGap c ms)"
      moreover from "1.prems"(1) have "distinct ms" unfolding ms_def members_def
        by (rule distinct_filter)
      moreover have "set ms \<subseteq> set (pending @ voted)" by (auto simp: ms_def members_def)
      moreover have "\<forall>p\<in>set ms. cell_of rho thetaStep (fst c) p = c"
        by (auto simp: ms_def members_def)
      ultimately show ?thesis using thr k by blast
    next
      assume rec: "s \<in> set (sample_loop rnd rho thetaStep voteThreshold minLineLength
                              maxLineGap i ?pending ?voted)"
      from "1.prems"(1) have d: "distinct (?pending @ ?voted)" by auto
      from "1.IH"(2) [OF Cons top [symmetric] ms_def d rec]
      obtain c' ms' where "distinct ms'" "set ms' \<subseteq> set (?pending @ ?voted)"
        "fst c' < num_angles thetaStep"
        "\<forall>p\<in>set ms'. cell_of rho thetaStep (fst c') p = c'" "voteThreshold \<le> int (length ms')"
        "s \<in> set (cell_segments thetaStep minLineLength maxLineGap c' ms')"
        by blast
      moreover have "set (?pending @ ?voted) \<subseteq> set (pending @ voted)" by auto
      ultimately show ?thesis by blast
    qed
  qed
qed

lemma votes_bound:
  assumes "distinct ms" and "set ms \<subseteq> set (edge_pixels m)"
    and "\<forall>p\<in>set ms. cell_of rho thetaStep (fst c) p = c"
  shows "length ms \<le> votes m rho thetaStep c"
proof -
  have "set ms \<subseteq> set (members rho thetaStep c (edge_pixels m))"
    using assms(2,3) by (auto simp: members_def)
  then have "card (set ms) \<le> card (set (members rho thetaStep c (edge_pixels m)))"
    by (intro card_mono) simp_all
  also have "\<dots> \<le> length (members rho thetaStep c (edge_pixels m))"
    by (rule card_length)
  finally show ?thesis using assms(1) by (simp add: votes_def distinct_card)
qed

lemma votes_le_edge_pixels: "votes m rho thetaStep c \<le> length (edge_pixels m)"
  by (simp add: votes_def members_def)

lemma detect_emitted:
  assumes "detect rnd m rho thetaStep voteThreshold minLineLength maxLineGap = Inr segs"
    and "s \<in> set segs"
  shows "\<exists>c p q. fst c < num_angles thetaStep
           \<and> voteThreshold \<le> int (votes m rho thetaStep c)
           \<and> p \<in> set (edge_pixels m) \<and> q \<in> set (edge_pixels m)
           \<and> cell_of rho thetaStep (fst c) p = c \<and> cell_of rho thetaStep (fst c) q = c
           \<and> s = \<lparr>seg_x1 = int (fst p), seg_y1 = int (snd p),
                  seg_x2 = int (fst q), seg_y2 = int (snd q)\<rparr>
           \<and> real minLineLength
               \<le> proj (theta_k thetaStep (fst c)) q - proj (theta_k thetaStep (fst c)) p"
proof -
  from assms have "s \<in> set (sample_loop rnd rho thetaStep voteThreshold minLineLength
                              maxLineGap 0 (edge_pixels m) [])"
    by (auto simp: detect_def split: if_splits)
  moreover have "distinct (edge_pixels m @ [])" by (simp add: distinct_edge_pixels)
  ultimately obtain c ms where ms: "distinct ms" "set ms \<subseteq> set (edge_pixels m @ [])"
    "\<forall>p\<in>set ms. cell_of rho thetaStep (fst c) p = c" "voteThreshold \<le> int (length ms)"
    and k: "fst c < num_angles thetaStep"
    and s: "s \<in> set (cell_segments thetaStep minLineLength maxLineGap c ms)"
    using sample_loop_emitted by blast
  from ms(2) have sub: "set ms \<subseteq> set (edge_pixels m)" by simp
  from votes_bound [OF ms(1) sub ms(3)] ms(4)
  have "voteThreshold \<le> int (votes m rho thetaStep c)" by linarith
  moreover from cell_segments_sound [OF s] obtain p q where
    "p \<in> set ms" "q \<in> set ms"
    "s = \<lparr>seg_x1 = int (fst p), seg_y1 = int (snd p),
          seg_x2 = int (fst q), seg_y2 = int (snd q)\<rparr>"
    "real minLineLength
       \<le> proj (theta_k thetaStep (fst c)) q - proj (theta_k thetaStep (fst c)) p"
    by blast
  ultimately show ?thesis using sub ms(3) k by blast
qed

lemma length_edge_pixels_diagonal: "length (edge_pixels diagonal_mask) = 20"
  by (simp add: edge_pixels_def diagonal_mask_def upt_rec)

lemma length_edge_pixels_blank: "length (edge_pixels blank_mask) = 0"
  by (simp add: edge_pixels_def blank_mask_def)

subsection \<open>The diagonal mask\<close>

lemma edge_pixels_diagonal: "edge_pixels diagonal_mask = diagonal_pixels"
  by (simp add: edge_pixels_def diagonal_mask_def diagonal_pixels_def upt_rec)

lemma num_angles_degree: "num_angles (pi / 180) = 180"
  by (simp add: num_angles_def)

lemma theta_135: "theta_k (pi / 180) 135 = pi - pi / 4"
  by (simp add: theta_k_def)

lemma cell_135:
  assumes "p \<in> set diagonal_pixels"
  shows "cell_of 1 (pi / 180) 135 p = (135, 0)"
proof -
  from assms obtain i where p: "p = (i, i)" by (auto simp: diagonal_pixels_def)
  have "cos (pi - pi / 4) + sin (pi - pi / 4) = 0"
    by (simp only: cos_pi_minus sin_pi_minus cos_45 sin_45 add.left_inverse)
  then have "real i * cos (pi - pi / 4) + real i * sin (pi - pi / 4) = 0"
    by (simp add: distrib_left [symmetric])
  with p show ?thesis by (simp add: cell_of_def bucket_def rho_of_def theta_135)
qed

lemma accumulate_votes_le:
  "(c, ms) \<in> set (accumulate rho thetaStep voted) \<Longrightarrow> length ms \<le> length voted"
  by (auto simp: accumulate_def members_def)

lemma candidates_Nil_below:
  assumes "int (length voted) < voteThreshold"
  shows "candidates voteThreshold rho thetaStep ps (accumulate rho thetaStep voted) = []"
proof -
  have "filter (\<lambda>(c, ms). voteThreshold \<le> int (length ms)) (accumulate rho thetaStep voted) = []"
    using assms accumulate_votes_le [of _ _ rho thetaStep voted]
    by (fastforce simp: filter_empty_conv)
  then show ?thesis by (simp add: candidates_def)
qed

lemma distinct_diagonal: "distinct diagonal_pixels"
  by (simp add: diagonal_pixels_def distinct_map inj_on_def)

lemma length_diagonal: "length diagonal_pixels = 20"
  by (simp add: diagonal_pixels_def)

lemma filter_full_length:
  assumes "length xs \<le> length (filter P xs)"
  shows "filter P xs = xs"
proof -
  have "\<forall>x\<in>set xs. P x"
  proof (rule ccontr)
    assume "\<not> (\<forall>x\<in>set xs. P x)"
    then obtain x where "x \<in> set xs" "\<not> P x" by blast
    then have "length (filter P xs) < length xs" by (rule length_filter_less)
    with assms show False by simp
  qed
  then show ?thesis by (simp add: filter_id_conv)
qed

lemma diagonal_cell_direction:
  assumes k: "k < 180"
    and eq: "cell_of 1 (pi / 180) k (0, 0) = cell_of 1 (pi / 180) k (19, 19)"
  shows "cos (theta_k (pi / 180) k) - sin (theta_k (pi / 180) k) < 0
       \<and> 26 \<le> 19 * (sin (theta_k (pi / 180) k) - cos (theta_k (pi / 180) k))"
proof -
  define th where "th = theta_k (pi / 180) k"
  define f where "f = cos th + sin th"
  define d where "d = sin th - cos th"
  have "0 \<le> th" by (simp add: th_def theta_k_def)
  moreover have "th \<le> pi"
  proof -
    from k have "real k \<le> 180" by simp
    then have "real k * (pi / 180) \<le> 180 * (pi / 180)"
      by (intro mult_right_mono) simp_all
    then show ?thesis by (simp add: th_def theta_k_def)
  qed
  ultimately have s0: "0 \<le> sin th" by (rule sin_ge_zero)
  have a: "cell_of 1 (pi / 180) k (0, 0) = (k, 0)"
    by (simp add: cell_of_def bucket_def rho_of_def)
  have b: "cell_of 1 (pi / 180) k (19, 19) = (k, \<lfloor>19 * cos th + 19 * sin th\<rfloor>)"
    by (simp add: cell_of_def bucket_def rho_of_def th_def)
  have "19 * cos th + 19 * sin th = 19 * f" by (simp add: f_def)
  with eq a b have fl: "\<lfloor>19 * f\<rfloor> = 0" by simp
  have f0: "0 \<le> 19 * f" using fl by linarith
  have f1: "19 * f < 1" using fl by linarith
  have sq: "d\<^sup>2 + f\<^sup>2 = 2"
  proof -
    have "(a - b)\<^sup>2 + (b + a)\<^sup>2 = 2 * (a\<^sup>2 + b\<^sup>2)" for a b :: real
      by (simp add: power2_eq_square algebra_simps)
    from this [of "sin th" "cos th"] show ?thesis by (simp add: d_def f_def)
  qed
  have "f\<^sup>2 \<le> (1 / 19)\<^sup>2" using f0 f1 by (intro power_mono) simp_all
  with sq have d2: "(26 / 19)\<^sup>2 \<le> d\<^sup>2" by (simp add: power2_eq_square)
  have dpos: "0 < d"
  proof (rule ccontr)
    assume "\<not> 0 < d"
    then have c: "sin th \<le> cos th" by (simp add: d_def)
    with s0 have "0 \<le> cos th" by simp
    with s0 have "0 \<le> 2 * (sin th * cos th)" by simp
    moreover have "f\<^sup>2 = (sin th)\<^sup>2 + (cos th)\<^sup>2 + 2 * (sin th * cos th)"
      by (simp add: f_def power2_eq_square algebra_simps)
    ultimately have "1 \<le> f\<^sup>2" by simp
    moreover from f0 f1 have "f\<^sup>2 < 1\<^sup>2" by (intro power_strict_mono) simp_all
    ultimately show False by simp
  qed
  from dpos have "0 \<le> d" by simp
  with d2 have "26 / 19 \<le> d" by (rule power2_le_imp_le)
  with dpos show ?thesis by (simp add: d_def th_def)
qed

lemma proj_diagonal: "proj th (i, i) = real i * (cos th - sin th)"
  by (simp add: proj_def algebra_simps)

lemma sort_diagonal:
  assumes neg: "cos th - sin th < 0"
    and d: "distinct ms" and s: "set ms = set diagonal_pixels"
  shows "sort_key (proj th) ms = rev diagonal_pixels"
proof -
  define e where "e = cos th - sin th"
  have pd: "proj th (i, i) = real i * e" for i by (simp add: proj_diagonal e_def)
  have inj: "inj_on (proj th) (set diagonal_pixels)"
  proof (rule inj_onI)
    fix p q assume "p \<in> set diagonal_pixels" "q \<in> set diagonal_pixels"
      and eq: "proj th p = proj th q"
    then obtain i j where "p = (i, i)" "q = (j, j)" by (auto simp: diagonal_pixels_def)
    with eq pd neg show "p = q" by (simp add: e_def)
  qed
  have "sorted_wrt (\<lambda>i j. real j * e \<le> real i * e) [0..<20]"
  proof (rule sorted_wrt_mono_rel [OF _ sorted_wrt_upt])
    fix i j :: nat assume "i < j"
    then have "real i \<le> real j" by simp
    with neg show "real j * e \<le> real i * e"
      unfolding e_def by (intro mult_right_mono_neg) simp_all
  qed
  then have "sorted_wrt (\<lambda>x y. y \<le> x) (map (proj th) diagonal_pixels)"
    by (simp add: diagonal_pixels_def sorted_wrt_map pd comp_def del: upt_Suc)
  then have srt: "sorted (map (proj th) (rev diagonal_pixels))"
    by (simp add: rev_map [symmetric] sorted_wrt_rev del: rev_map)
  have dst: "distinct (map (proj th) (rev diagonal_pixels))"
    using inj distinct_diagonal by (simp add: distinct_map)
  have srt': "sorted (map (proj th) (sort_key (proj th) ms))" by (rule sorted_sort_key)
  have dst': "distinct (map (proj th) (sort_key (proj th) ms))"
    using inj d s by (simp add: distinct_map)
  have sets: "set (map (proj th) (sort_key (proj th) ms))
                = set (map (proj th) (rev diagonal_pixels))"
    using s by simp
  from sorted_distinct_set_unique [OF srt' dst' srt dst sets]
  have "map (proj th) (sort_key (proj th) ms) = map (proj th) (rev diagonal_pixels)" .
  moreover have "inj_on (proj th) (set (sort_key (proj th) ms) \<union> set (rev diagonal_pixels))"
    using inj s by simp
  ultimately show ?thesis by (simp only: inj_on_map_eq_map)
qed

lemma split_runs_diagonal: "split_runs g (rev diagonal_pixels) = [rev diagonal_pixels]"
  by (simp add: diagonal_pixels_def upt_rec pixel_gap_def)

lemma segment_of_diagonal:
  "segment_of (rev diagonal_pixels) = \<lparr>seg_x1 = 19, seg_y1 = 19, seg_x2 = 0, seg_y2 = 0\<rparr>"
  by (simp add: segment_of_def diagonal_pixels_def upt_rec)

lemma run_span_diagonal:
  "run_span (proj th) (rev diagonal_pixels) = 19 * (sin th - cos th)"
  by (simp add: run_span_def diagonal_pixels_def upt_rec proj_def)

subsection \<open>A mask whose edge pixels share one cell\<close>

text \<open>
  When every edge pixel of the mask lies in one accumulator cell and the mask holds at least
  \<open>voteThreshold\<close> edge pixels, the first cell to reach the threshold holds all of them:
  whatever the random source draws, the result is the segments of that one line.
\<close>

lemma length_same_set:
  assumes "distinct xs" "distinct ys" "set xs = set ys"
  shows "length xs = length ys"
  using assms by (metis distinct_card)

lemma top_candidate_line:
  assumes c0: "fst c0 < num_angles thetaStep"
    and all0: "\<forall>p\<in>set (pending @ voted). cell_of rho thetaStep (fst c0) p = c0"
    and l: "int (length voted) = voteThreshold" and pos: "1 \<le> voteThreshold"
  shows "\<exists>c ms rest.
           candidates voteThreshold rho thetaStep (pending @ voted)
             (accumulate rho thetaStep voted) = (c, ms) # rest
           \<and> fst c < num_angles thetaStep
           \<and> members rho thetaStep c (pending @ voted) = pending @ voted"
proof -
  let ?all = "pending @ voted"
  let ?F = "filter (\<lambda>(c, ms). voteThreshold \<le> int (length ms)) (accumulate rho thetaStep voted)"
  let ?g = "\<lambda>(c, ms :: pixel list). - int (length (members rho thetaStep c ?all))"
  let ?h = "\<lambda>(c :: cell, ms :: pixel list). - int (length ms)"
  let ?inner = "sort_key ?g ?F"
  have m_all: "members rho thetaStep c0 ?all = ?all"
    unfolding members_def using all0 by (intro filter_True)
  have m_voted: "members rho thetaStep c0 voted = voted"
    unfolding members_def using all0 by (intro filter_True ballI) auto
  from l pos obtain p where p: "p \<in> set voted" by (cases voted) auto
  have "c0 \<in> set (map (\<lambda>k. cell_of rho thetaStep k p) [0..<num_angles thetaStep])"
  proof -
    from p all0 have "cell_of rho thetaStep (fst c0) p = c0" by simp
    moreover from c0 have "fst c0 \<in> set [0..<num_angles thetaStep]" by simp
    ultimately show ?thesis by (metis image_eqI set_map)
  qed
  with p have "(c0, voted) \<in> set (accumulate rho thetaStep voted)"
    unfolding accumulate_def using m_voted by (auto simp: image_iff)
  with l have e0: "(c0, voted) \<in> set ?F" by simp
  have same: "int (length ms) = voteThreshold" if "(c, ms) \<in> set ?F" for c ms
  proof -
    from that have "(c, ms) \<in> set (accumulate rho thetaStep voted)"
      and "voteThreshold \<le> int (length ms)" by auto
    with accumulate_votes_le [of c ms rho thetaStep voted] l show ?thesis by simp
  qed
  have "map ?h ?inner = replicate (length ?inner) (- voteThreshold)"
  proof (rule replicate_eqI [symmetric, THEN sym])
    show "length (map ?h ?inner) = length ?inner" by simp
  next
    fix y assume "y \<in> set (map ?h ?inner)"
    then obtain c ms where "(c, ms) \<in> set ?F" "y = - int (length ms)" by auto
    with same show "y = - voteThreshold" by simp
  qed
  then have "sorted (map ?h ?inner)" by (simp add: sorted_replicate)
  then have outer: "sort_key ?h ?inner = ?inner" by (rule sort_key_id_if_sorted)
  have cand: "candidates voteThreshold rho thetaStep ?all (accumulate rho thetaStep voted)
                = ?inner"
    unfolding candidates_def using outer by simp
  from e0 have "?inner \<noteq> []" by (metis empty_iff list.set(1) set_sort)
  then obtain top rest where inner: "?inner = top # rest" by (cases ?inner) auto
  obtain c ms where top: "top = (c, ms)" by (cases top)
  have "sorted (map ?g ?inner)" by (rule sorted_sort_key)
  with inner have "\<forall>x\<in>set ?inner. ?g top \<le> ?g x" by auto
  moreover from e0 have "(c0, voted) \<in> set ?inner" by simp
  ultimately have "?g top \<le> ?g (c0, voted)" by blast
  with top m_all have "length ?all \<le> length (members rho thetaStep c ?all)" by simp
  then have "length ?all \<le> length (filter (\<lambda>p. cell_of rho thetaStep (fst c) p = c) ?all)"
    by (simp add: members_def)
  then have full: "members rho thetaStep c ?all = ?all"
    unfolding members_def by (rule filter_full_length)
  from cand inner top have c1:
    "candidates voteThreshold rho thetaStep ?all (accumulate rho thetaStep voted)
       = (c, ms) # rest" by simp
  from candidates_head [OF c1] have "fst c < num_angles thetaStep" by simp
  with c1 full show ?thesis by (intro exI [of _ c] exI [of _ ms] exI [of _ rest]) simp
qed

lemma sample_loop_empty:
  "sample_loop rnd rho thetaStep voteThreshold minLineLength maxLineGap i [] [] = []"
  by (subst sample_loop.simps) (simp add: accumulate_def candidates_def)

lemma loop_single_cell:
  assumes "distinct (pending @ voted)"
    and "fst c0 < num_angles thetaStep"
    and "\<forall>p\<in>set (pending @ voted). cell_of rho thetaStep (fst c0) p = c0"
    and "int (length voted) \<le> voteThreshold"
    and "voteThreshold \<le> int (length (pending @ voted))"
    and "1 \<le> voteThreshold"
  shows "\<exists>c ps. fst c < num_angles thetaStep
           \<and> (\<forall>p\<in>set (pending @ voted). cell_of rho thetaStep (fst c) p = c)
           \<and> distinct ps \<and> set ps = set (pending @ voted)
           \<and> sample_loop rnd rho thetaStep voteThreshold minLineLength maxLineGap
                i pending voted
               = cell_segments thetaStep minLineLength maxLineGap c ps"
  using assms
proof (induction "nat voteThreshold - length voted" arbitrary: i pending voted)
  case 0
  then have l: "int (length voted) = voteThreshold" by simp
  from top_candidate_line [OF "0.prems"(2,3) l "0.prems"(6)] obtain c ms rest where
    cand: "candidates voteThreshold rho thetaStep (pending @ voted)
             (accumulate rho thetaStep voted) = (c, ms) # rest"
    and k: "fst c < num_angles thetaStep"
    and full: "members rho thetaStep c (pending @ voted) = pending @ voted"
    by blast
  have f1: "filter (\<lambda>p. p \<notin> set (pending @ voted)) pending = []"
    by (simp add: filter_empty_conv)
  have f2: "filter (\<lambda>p. p \<notin> set (pending @ voted)) voted = []"
    by (simp add: filter_empty_conv)
  have run: "sample_loop rnd rho thetaStep voteThreshold minLineLength maxLineGap
               i pending voted
             = cell_segments thetaStep minLineLength maxLineGap c (pending @ voted)"
    by (subst sample_loop.simps)
       (simp only: cand list.case prod.case Let_def full f1 f2 sample_loop_empty append_Nil2)
  from full have "\<forall>p\<in>set (pending @ voted). cell_of rho thetaStep (fst c) p = c"
    unfolding members_def by (simp only: filter_id_conv)
  with k run "0.prems"(1) show ?case
    by (intro exI [of _ c] exI [of _ "pending @ voted"]) simp
next
  case (Suc n)
  then have l: "int (length voted) < voteThreshold" by simp
  then have none: "candidates voteThreshold rho thetaStep (pending @ voted)
                     (accumulate rho thetaStep voted) = []"
    by (rule candidates_Nil_below)
  from l Suc.prems(5) have ne: "pending \<noteq> []" by auto
  define j where "j = rnd i mod length pending"
  from ne have j: "j < length pending" by (simp add: j_def)
  let ?pending = "take j pending @ drop (Suc j) pending"
  let ?voted = "pending ! j # voted"
  note d = sample_step_distinct [OF Suc.prems(1) j]
  have n: "n = nat voteThreshold - length ?voted" using Suc.hyps(2) by simp
  have l': "int (length ?voted) \<le> voteThreshold" using l by simp
  from d(2) Suc.prems(3) have
    a': "\<forall>p\<in>set (?pending @ ?voted). cell_of rho thetaStep (fst c0) p = c0" by simp
  have "length (?pending @ ?voted) = length (pending @ voted)"
    by (rule length_same_set [OF d(1) Suc.prems(1) d(2)])
  with Suc.prems(5) have e': "voteThreshold \<le> int (length (?pending @ ?voted))" by simp
  from Suc.hyps(1) [OF n d(1) Suc.prems(2) a' l' e' Suc.prems(6), of "Suc i"]
  obtain c ps where k: "fst c < num_angles thetaStep"
    and a: "\<forall>p\<in>set (?pending @ ?voted). cell_of rho thetaStep (fst c) p = c"
    and ps: "distinct ps" "set ps = set (?pending @ ?voted)"
    and r: "sample_loop rnd rho thetaStep voteThreshold minLineLength maxLineGap
       (Suc i) ?pending ?voted = cell_segments thetaStep minLineLength maxLineGap c ps"
    by blast
  from a have a2: "\<forall>p\<in>set (pending @ voted). cell_of rho thetaStep (fst c) p = c"
    by (simp only: d(2))
  from ps(2) have ps2: "set ps = set (pending @ voted)" by (simp only: d(2))
  have "sample_loop rnd rho thetaStep voteThreshold minLineLength maxLineGap
                   i pending voted
                 = sample_loop rnd rho thetaStep voteThreshold minLineLength maxLineGap
                     (Suc i) ?pending ?voted"
    by (subst sample_loop.simps) (simp add: none ne j_def Let_def)
  with r have "sample_loop rnd rho thetaStep voteThreshold minLineLength maxLineGap
                   i pending voted = cell_segments thetaStep minLineLength maxLineGap c ps"
    by simp
  with k a2 ps(1) ps2 show ?case by blast
qed

lemma detect_single_cell:
  assumes "0 < rho" "0 < thetaStep" "1 \<le> voteThreshold"
    and "0 < mask_width m" "0 < mask_height m"
    and "voteThreshold \<le> int (length (edge_pixels m))"
    and "fst c0 < num_angles thetaStep"
    and "\<forall>p\<in>set (edge_pixels m). cell_of rho thetaStep (fst c0) p = c0"
  shows "\<exists>c ps. fst c < num_angles thetaStep
           \<and> (\<forall>p\<in>set (edge_pixels m). cell_of rho thetaStep (fst c) p = c)
           \<and> distinct ps \<and> set ps = set (edge_pixels m)
           \<and> detect rnd m rho thetaStep voteThreshold minLineLength maxLineGap
               = Inr (cell_segments thetaStep minLineLength maxLineGap c ps)"
proof -
  have d: "distinct (edge_pixels m @ [])" by (simp add: distinct_edge_pixels)
  from assms(8) have a: "\<forall>p\<in>set (edge_pixels m @ []). cell_of rho thetaStep (fst c0) p = c0"
    by simp
  from assms(3) have l: "int (length ([] :: pixel list)) \<le> voteThreshold" by simp
  from assms(6) have e: "voteThreshold \<le> int (length (edge_pixels m @ []))" by simp
  from loop_single_cell [OF d assms(7) a l e assms(3), of rnd minLineLength maxLineGap 0]
  obtain c ps where "fst c < num_angles thetaStep"
    "\<forall>p\<in>set (edge_pixels m @ []). cell_of rho thetaStep (fst c) p = c"
    "distinct ps" "set ps = set (edge_pixels m @ [])"
    "sample_loop rnd rho thetaStep voteThreshold minLineLength maxLineGap 0 (edge_pixels m) []
       = cell_segments thetaStep minLineLength maxLineGap c ps"
    by blast
  with assms(1-5) show ?thesis
    by (intro exI [of _ c] exI [of _ ps]) (simp add: detect_def)
qed

lemma detect_below_threshold:
  assumes "0 < rho" "0 < thetaStep" "1 \<le> voteThreshold"
    and "0 < mask_width m" "0 < mask_height m"
    and few: "int (length (edge_pixels m)) < voteThreshold"
  shows "detect rnd m rho thetaStep voteThreshold minLineLength maxLineGap = Inr []"
proof -
  from assms(1-5) obtain segs where
    d: "detect rnd m rho thetaStep voteThreshold minLineLength maxLineGap = Inr segs"
    by (simp add: detect_def)
  have "segs = []"
  proof (rule ccontr)
    assume "segs \<noteq> []"
    then obtain s where "s \<in> set segs" by (cases segs) auto
    from detect_emitted [OF d this] obtain c where
      "voteThreshold \<le> int (votes m rho thetaStep c)" by blast
    with votes_le_edge_pixels [of m rho thetaStep c] few show False by linarith
  qed
  with d show ?thesis by simp
qed

subsection \<open>The detector on the concrete masks\<close>

text \<open>
  The first scenario of section 8 of the specification: on the 20 by 20 diagonal mask with
  \<open>rho = 1\<close>, \<open>thetaStep = \<pi> / 180\<close> and \<open>voteThreshold = 10\<close>, the detector returns the one
  segment between (19, 19) and (0, 0), for every random source, every \<open>maxLineGap\<close> and
  every \<open>minLineLength\<close> up to 26.
\<close>

lemma diagonal_run:
  assumes k: "fst c < 180"
    and a: "\<forall>p\<in>set diagonal_pixels. cell_of 1 (pi / 180) (fst c) p = c"
    and d: "distinct ps" and s: "set ps = set diagonal_pixels"
  shows "sort_key (proj (theta_k (pi / 180) (fst c))) ps = rev diagonal_pixels"
    and "cos (theta_k (pi / 180) (fst c)) - sin (theta_k (pi / 180) (fst c)) < 0"
    and "26 \<le> run_span (proj (theta_k (pi / 180) (fst c))) (rev diagonal_pixels)"
proof -
  let ?th = "theta_k (pi / 180) (fst c)"
  have "(0, 0) \<in> set diagonal_pixels" "(19, 19) \<in> set diagonal_pixels"
    by (simp_all add: diagonal_pixels_def)
  with a have "cell_of 1 (pi / 180) (fst c) (0, 0) = cell_of 1 (pi / 180) (fst c) (19, 19)"
    by simp
  from diagonal_cell_direction [OF k this]
  have neg: "cos ?th - sin ?th < 0" and span: "26 \<le> 19 * (sin ?th - cos ?th)" by simp_all
  show "sort_key (proj ?th) ps = rev diagonal_pixels" by (rule sort_diagonal [OF neg d s])
  show "cos ?th - sin ?th < 0" by (rule neg)
  from span show "26 \<le> run_span (proj ?th) (rev diagonal_pixels)"
    by (simp only: run_span_diagonal)
qed

lemma detect_diagonal_pixels:
  assumes e: "edge_pixels m = diagonal_pixels"
    and w: "0 < mask_width m" "0 < mask_height m" and len: "minLineLength \<le> 26"
  shows "detect rnd m 1 (pi / 180) 10 minLineLength maxLineGap
           = Inr [\<lparr>seg_x1 = 19, seg_y1 = 19, seg_x2 = 0, seg_y2 = 0\<rparr>]"
proof -
  have step: "(0::real) < pi / 180" using pi_gt_zero by simp
  have enough: "(10::int) \<le> int (length (edge_pixels m))" by (simp add: e length_diagonal)
  have k0: "fst (135::nat, 0::int) < num_angles (pi / 180)" by (simp add: num_angles_degree)
  have a0: "\<forall>p\<in>set (edge_pixels m). cell_of 1 (pi / 180) (fst (135::nat, 0::int)) p = (135, 0)"
    by (simp add: e cell_135)
  have "\<exists>c ps. fst c < num_angles (pi / 180)
           \<and> (\<forall>p\<in>set (edge_pixels m). cell_of 1 (pi / 180) (fst c) p = c)
           \<and> distinct ps \<and> set ps = set (edge_pixels m)
           \<and> detect rnd m 1 (pi / 180) 10 minLineLength maxLineGap
               = Inr (cell_segments (pi / 180) minLineLength maxLineGap c ps)"
    by (rule detect_single_cell [OF _ step _ w enough k0 a0]) simp_all
  then obtain c ps where k: "fst c < 180"
    and a: "\<forall>p\<in>set diagonal_pixels. cell_of 1 (pi / 180) (fst c) p = c"
    and ps: "distinct ps" "set ps = set diagonal_pixels"
    and d: "detect rnd m 1 (pi / 180) 10 minLineLength maxLineGap
              = Inr (cell_segments (pi / 180) minLineLength maxLineGap c ps)"
    unfolding e num_angles_degree by blast
  note r = diagonal_run [OF k a ps]
  from len have "real minLineLength \<le> 26" by simp
  with r(3) have "real minLineLength
      \<le> run_span (proj (theta_k (pi / 180) (fst c))) (rev diagonal_pixels)" by linarith
  then have "cell_segments (pi / 180) minLineLength maxLineGap c ps
               = [\<lparr>seg_x1 = 19, seg_y1 = 19, seg_x2 = 0, seg_y2 = 0\<rparr>]"
    by (simp add: cell_segments_def Let_def r(1) split_runs_diagonal segment_of_diagonal)
  with d show ?thesis by simp
qed

lemma detect_diagonal:
  assumes "minLineLength \<le> 26"
  shows "detect rnd diagonal_mask 1 (pi / 180) 10 minLineLength maxLineGap
           = Inr [\<lparr>seg_x1 = 19, seg_y1 = 19, seg_x2 = 0, seg_y2 = 0\<rparr>]"
  by (rule detect_diagonal_pixels [OF edge_pixels_diagonal _ _ assms])
     (simp_all add: diagonal_mask_def)

text \<open>
  The column with two runs of three pixels and two pixels missing between them, with
  \<open>minLineLength = 2\<close>: one segment when \<open>maxLineGap = 2\<close>, two segments when
  \<open>maxLineGap = 1\<close>.
\<close>

lemma sort_key_unique:
  assumes srt: "sorted (map f xs)" and inj: "inj_on f (set xs)"
    and dx: "distinct xs" and d: "distinct ps" and s: "set ps = set xs"
  shows "sort_key f ps = xs"
proof -
  have dst: "distinct (map f xs)" using inj dx by (simp add: distinct_map)
  have srt': "sorted (map f (sort_key f ps))" by (rule sorted_sort_key)
  have dst': "distinct (map f (sort_key f ps))" using inj d s by (simp add: distinct_map)
  have sets: "set (map f (sort_key f ps)) = set (map f xs)" using s by simp
  from sorted_distinct_set_unique [OF srt' dst' srt dst sets]
  have "map f (sort_key f ps) = map f xs" .
  moreover have "inj_on f (set (sort_key f ps) \<union> set xs)" using inj s by simp
  ultimately show ?thesis by (simp only: inj_on_map_eq_map)
qed

lemma edge_pixels_two_runs:
  "edge_pixels two_runs_mask = [(0, 0), (0, 1), (0, 2), (0, 5), (0, 6), (0, 7)]"
  by (simp add: edge_pixels_def two_runs_mask_def upt_rec)

lemma num_angles_half_pi: "num_angles (pi / 2) = 2"
  by (simp add: num_angles_def)

lemma cell_of_angle0: "cell_of 1 (pi / 2) 0 p = (0, int (fst p))"
  by (simp add: cell_of_def bucket_def rho_of_def theta_k_def)

lemma cell_of_angle1: "cell_of 1 (pi / 2) (Suc 0) p = (1, int (snd p))"
  by (simp add: cell_of_def bucket_def rho_of_def theta_k_def)

lemma two_runs_cell:
  assumes k: "fst c < num_angles (pi / 2)"
    and a: "\<forall>p\<in>set (edge_pixels two_runs_mask). cell_of 1 (pi / 2) (fst c) p = c"
  shows "fst c = 0"
proof (rule ccontr)
  assume "fst c \<noteq> 0"
  with k have one: "fst c = Suc 0" by (simp add: num_angles_half_pi)
  from a have "cell_of 1 (pi / 2) (fst c) (0, 0) = c" "cell_of 1 (pi / 2) (fst c) (0, 1) = c"
    by (simp_all add: edge_pixels_two_runs)
  then have "(Suc 0, (0::int)) = c" "(Suc 0, (1::int)) = c"
    by (simp_all add: one cell_of_angle1)
  then have "(Suc 0, (0::int)) = (Suc 0, (1::int))" by (rule trans [OF _ sym])
  then show False by simp
qed

lemma two_runs_sorted:
  assumes "fst c = 0" "distinct ps" "set ps = set (edge_pixels two_runs_mask)"
  shows "sort_key (proj (theta_k (pi / 2) (fst c))) ps
           = [(0, 0), (0, 1), (0, 2)] @ [(0, 5), (0, 6), (0, 7)]"
proof -
  have f: "proj (theta_k (pi / 2) (fst c)) = (\<lambda>p. real (snd p))"
    by (rule ext) (simp add: proj_def theta_k_def assms(1))
  show ?thesis unfolding f
    by (rule sort_key_unique)
       (use assms in \<open>simp_all add: edge_pixels_two_runs inj_on_def\<close>)
qed

lemma detect_two_runs_mask:
  assumes "1 \<le> voteThreshold" "voteThreshold \<le> 6"
  shows "detect rnd two_runs_mask 1 (pi / 2) voteThreshold 2 2
           = Inr [\<lparr>seg_x1 = 0, seg_y1 = 0, seg_x2 = 0, seg_y2 = 7\<rparr>]"
    and "detect rnd two_runs_mask 1 (pi / 2) voteThreshold 2 1
           = Inr [\<lparr>seg_x1 = 0, seg_y1 = 0, seg_x2 = 0, seg_y2 = 2\<rparr>,
                  \<lparr>seg_x1 = 0, seg_y1 = 5, seg_x2 = 0, seg_y2 = 7\<rparr>]"
proof -
  have step: "(0::real) < pi / 2" using pi_gt_zero by simp
  have w: "0 < mask_width two_runs_mask" "0 < mask_height two_runs_mask"
    by (simp_all add: two_runs_mask_def)
  have enough: "voteThreshold \<le> int (length (edge_pixels two_runs_mask))"
    using assms(2) by (simp add: edge_pixels_two_runs)
  have k0: "fst (0::nat, 0::int) < num_angles (pi / 2)" by (simp add: num_angles_half_pi)
  have a0: "\<forall>p\<in>set (edge_pixels two_runs_mask).
              cell_of 1 (pi / 2) (fst (0::nat, 0::int)) p = (0, 0)"
    by (simp add: edge_pixels_two_runs cell_of_angle0)
  have eval: "cell_segments (pi / 2) 2 2 c ps
                = [\<lparr>seg_x1 = 0, seg_y1 = 0, seg_x2 = 0, seg_y2 = 7\<rparr>]
            \<and> cell_segments (pi / 2) 2 1 c ps
                = [\<lparr>seg_x1 = 0, seg_y1 = 0, seg_x2 = 0, seg_y2 = 2\<rparr>,
                   \<lparr>seg_x1 = 0, seg_y1 = 5, seg_x2 = 0, seg_y2 = 7\<rparr>]"
    if k: "fst c < num_angles (pi / 2)"
      and a: "\<forall>p\<in>set (edge_pixels two_runs_mask). cell_of 1 (pi / 2) (fst c) p = c"
      and d: "distinct ps" and s: "set ps = set (edge_pixels two_runs_mask)" for c ps
  proof -
    from two_runs_cell [OF k a] have z: "fst c = 0" .
    have f: "proj (theta_k (pi / 2) (fst c)) = (\<lambda>p. real (snd p))"
      by (rule ext) (simp add: proj_def theta_k_def z)
    note srt = two_runs_sorted [OF z d s]
    show ?thesis
      unfolding cell_segments_def Let_def srt
      by (simp add: f pixel_gap_def run_span_def segment_of_def)
  qed
  have "\<exists>c ps. fst c < num_angles (pi / 2)
           \<and> (\<forall>p\<in>set (edge_pixels two_runs_mask). cell_of 1 (pi / 2) (fst c) p = c)
           \<and> distinct ps \<and> set ps = set (edge_pixels two_runs_mask)
           \<and> detect rnd two_runs_mask 1 (pi / 2) voteThreshold 2 2
               = Inr (cell_segments (pi / 2) 2 2 c ps)"
    by (rule detect_single_cell [OF _ step assms(1) w enough k0 a0]) simp
  then obtain c ps where "fst c < num_angles (pi / 2)"
    "\<forall>p\<in>set (edge_pixels two_runs_mask). cell_of 1 (pi / 2) (fst c) p = c"
    "distinct ps" "set ps = set (edge_pixels two_runs_mask)"
    "detect rnd two_runs_mask 1 (pi / 2) voteThreshold 2 2
       = Inr (cell_segments (pi / 2) 2 2 c ps)"
    by blast
  with eval [of c ps]
  show "detect rnd two_runs_mask 1 (pi / 2) voteThreshold 2 2
           = Inr [\<lparr>seg_x1 = 0, seg_y1 = 0, seg_x2 = 0, seg_y2 = 7\<rparr>]"
    by simp
  have "\<exists>c ps. fst c < num_angles (pi / 2)
           \<and> (\<forall>p\<in>set (edge_pixels two_runs_mask). cell_of 1 (pi / 2) (fst c) p = c)
           \<and> distinct ps \<and> set ps = set (edge_pixels two_runs_mask)
           \<and> detect rnd two_runs_mask 1 (pi / 2) voteThreshold 2 1
               = Inr (cell_segments (pi / 2) 2 1 c ps)"
    by (rule detect_single_cell [OF _ step assms(1) w enough k0 a0]) simp
  then obtain c ps where "fst c < num_angles (pi / 2)"
    "\<forall>p\<in>set (edge_pixels two_runs_mask). cell_of 1 (pi / 2) (fst c) p = c"
    "distinct ps" "set ps = set (edge_pixels two_runs_mask)"
    "detect rnd two_runs_mask 1 (pi / 2) voteThreshold 2 1
       = Inr (cell_segments (pi / 2) 2 1 c ps)"
    by blast
  with eval [of c ps]
  show "detect rnd two_runs_mask 1 (pi / 2) voteThreshold 2 1
           = Inr [\<lparr>seg_x1 = 0, seg_y1 = 0, seg_x2 = 0, seg_y2 = 2\<rparr>,
                  \<lparr>seg_x1 = 0, seg_y1 = 5, seg_x2 = 0, seg_y2 = 7\<rparr>]"
    by simp
qed

subsection \<open>The claims about the detector\<close>

text \<open>
  C2: \<open>detect\<close> fails with \<open>InvalidParameter\<close> whenever \<open>rho \<le> 0\<close>, \<open>thetaStep \<le> 0\<close>,
  \<open>voteThreshold < 1\<close> or the mask has zero area, whatever the mask holds and whatever the
  random source draws; the error carries no segments.
\<close>

theorem detect_invalid_parameter:
  assumes "rho \<le> 0 \<or> thetaStep \<le> 0 \<or> voteThreshold < 1
           \<or> mask_width m * mask_height m = 0"
  shows "detect rnd m rho thetaStep voteThreshold minLineLength maxLineGap
           = Inl InvalidParameter"
  using assms by (simp add: detect_def)

theorem detect_invalid_parameter_witness:
  "detect (\<lambda>i. 0) column_mask 0 (pi / 2) 2 1 1 = Inl InvalidParameter
   \<and> detect (\<lambda>i. 0) column_mask 1 0 2 1 1 = Inl InvalidParameter
   \<and> detect (\<lambda>i. 0) column_mask 1 (pi / 2) 0 1 1 = Inl InvalidParameter
   \<and> detect (\<lambda>i. 0) (column_mask\<lparr>mask_width := 0\<rparr>) 1 (pi / 2) 2 1 1 = Inl InvalidParameter"
  using detect_invalid_parameter [of 0 "pi / 2" 2 column_mask "\<lambda>i. 0" 1 1]
    detect_invalid_parameter [of 1 0 2 column_mask "\<lambda>i. 0" 1 1]
    detect_invalid_parameter [of 1 "pi / 2" 0 column_mask "\<lambda>i. 0" 1 1]
    detect_invalid_parameter [of 1 "pi / 2" 2 "column_mask\<lparr>mask_width := 0\<rparr>" "\<lambda>i. 0" 1 1]
  by simp

text \<open>
  C3: with valid parameters, when no accumulator cell reaches \<open>voteThreshold\<close>, \<open>detect\<close>
  returns the empty sequence, which is not the parameter error. The witness covers the
  mask without edge pixels and the diagonal mask with a threshold of 25.
\<close>

theorem detect_no_candidate:
  assumes "0 < rho" "0 < thetaStep" "1 \<le> voteThreshold"
    and "0 < mask_width m" "0 < mask_height m"
    and none: "\<forall>c. fst c < num_angles thetaStep
                  \<longrightarrow> int (votes m rho thetaStep c) < voteThreshold"
  shows "detect rnd m rho thetaStep voteThreshold minLineLength maxLineGap = Inr []
       \<and> detect rnd m rho thetaStep voteThreshold minLineLength maxLineGap
           \<noteq> Inl InvalidParameter"
proof -
  from assms(1-5) obtain segs where
    d: "detect rnd m rho thetaStep voteThreshold minLineLength maxLineGap = Inr segs"
    by (simp add: detect_def)
  have "segs = []"
  proof (rule ccontr)
    assume "segs \<noteq> []"
    then obtain s where "s \<in> set segs" by (cases segs) auto
    from detect_emitted [OF d this] obtain c where
      "fst c < num_angles thetaStep" "voteThreshold \<le> int (votes m rho thetaStep c)"
      by blast
    moreover from none this(1) have "int (votes m rho thetaStep c) < voteThreshold" by blast
    ultimately show False by linarith
  qed
  with d show ?thesis by simp
qed

theorem detect_no_candidate_witness:
  "detect (\<lambda>i. 0) blank_mask 1 (pi / 180) 10 15 0 = Inr []
   \<and> detect (\<lambda>i. 0) diagonal_mask 1 (pi / 180) 25 15 0 = Inr []
   \<and> detect (\<lambda>i. 0) diagonal_mask 1 (pi / 180) 25 15 0 \<noteq> Inl InvalidParameter"
proof -
  have step: "(0::real) < pi / 180" using pi_gt_zero by simp
  have blank: "\<forall>c. fst c < num_angles (pi / 180)
                  \<longrightarrow> int (votes blank_mask 1 (pi / 180) c) < 10"
  proof (intro allI impI)
    fix c :: cell
    from votes_le_edge_pixels [of blank_mask 1 "pi / 180" c] length_edge_pixels_blank
    show "int (votes blank_mask 1 (pi / 180) c) < 10" by simp
  qed
  have diagonal: "\<forall>c. fst c < num_angles (pi / 180)
                     \<longrightarrow> int (votes diagonal_mask 1 (pi / 180) c) < 25"
  proof (intro allI impI)
    fix c :: cell
    from votes_le_edge_pixels [of diagonal_mask 1 "pi / 180" c] length_edge_pixels_diagonal
    show "int (votes diagonal_mask 1 (pi / 180) c) < 25" by simp
  qed
  have w: "0 < mask_width blank_mask" "0 < mask_height blank_mask"
    "0 < mask_width diagonal_mask" "0 < mask_height diagonal_mask"
    by (simp_all add: blank_mask_def diagonal_mask_def)
  from detect_no_candidate [OF _ step _ w(1,2) blank, of "\<lambda>i. 0" 15 0]
    detect_no_candidate [OF _ step _ w(3,4) diagonal, of "\<lambda>i. 0" 15 0]
  show ?thesis by simp
qed

end
